theory Spec2Isabelle
  imports Main "HOL-Library.Product_Lexorder"
begin

section \<open>Data model\<close>

text \<open>
  A cell is a Python tuple \<^verbatim>\<open>(i, j)\<close> of unbounded integers.  A \<^verbatim>\<open>Sentence\<close> holds a set of
  cells and an integer count; \<^verbatim>\<open>MinesweeperAI\<close> holds the board dimensions, three sets of
  cells and the list of sentences.
\<close>

type_synonym cell = "int \<times> int"

record sentence =
  cells :: "cell set"
  count :: int

record minesweeper_ai =
  height :: int
  width :: int
  moves_made :: "cell set"
  mines :: "cell set"
  safes :: "cell set"
  knowledge :: "sentence list"

text \<open>\<^verbatim>\<open>MinesweeperAI.__init__\<close>\<close>

definition init_ai :: "int \<Rightarrow> int \<Rightarrow> minesweeper_ai" where
  "init_ai h w =
     \<lparr>height = h, width = w, moves_made = {}, mines = {}, safes = {}, knowledge = []\<rparr>"

section \<open>Sentence\<close>

text \<open>\<^verbatim>\<open>Sentence.__eq__\<close>: equal cell sets and equal counts.\<close>

definition sentence_eq :: "sentence \<Rightarrow> sentence \<Rightarrow> bool" where
  "sentence_eq s t \<longleftrightarrow> cells s = cells t \<and> count s = count t"

text \<open>
  \<^verbatim>\<open>Sentence.known_mines\<close> and \<^verbatim>\<open>Sentence.known_safes\<close>: the set \<^verbatim>\<open>self.cells\<close>, or Python's
  \<^verbatim>\<open>None\<close>.  \<^verbatim>\<open>len(self.cells)\<close> is the cardinality of the set.
\<close>

definition known_mines :: "sentence \<Rightarrow> cell set option" where
  "known_mines s = (if count s = int (card (cells s)) then Some (cells s) else None)"

definition known_safes :: "sentence \<Rightarrow> cell set option" where
  "known_safes s = (if count s = 0 then Some (cells s) else None)"

text \<open>\<^verbatim>\<open>Sentence.mark_mine\<close> and \<^verbatim>\<open>Sentence.mark_safe\<close>, returning the updated sentence.\<close>

definition Sentence_mark_mine :: "cell \<Rightarrow> sentence \<Rightarrow> sentence" where
  "Sentence_mark_mine c s =
     (if c \<in> cells s then s\<lparr>cells := cells s - {c}, count := count s - 1\<rparr> else s)"

definition Sentence_mark_safe :: "cell \<Rightarrow> sentence \<Rightarrow> sentence" where
  "Sentence_mark_safe c s = (if c \<in> cells s then s\<lparr>cells := cells s - {c}\<rparr> else s)"

section \<open>MinesweeperAI\<close>

text \<open>
  \<^verbatim>\<open>MinesweeperAI.mark_mine\<close> and \<^verbatim>\<open>MinesweeperAI.mark_safe\<close>: add the cell to the set and
  run the sentence-level operation on every sentence of the list, in place.
\<close>

definition mark_mine :: "cell \<Rightarrow> minesweeper_ai \<Rightarrow> minesweeper_ai" where
  "mark_mine c ai =
     ai\<lparr>mines := insert c (mines ai), knowledge := map (Sentence_mark_mine c) (knowledge ai)\<rparr>"

definition mark_safe :: "cell \<Rightarrow> minesweeper_ai \<Rightarrow> minesweeper_ai" where
  "mark_safe c ai =
     ai\<lparr>safes := insert c (safes ai), knowledge := map (Sentence_mark_safe c) (knowledge ai)\<rparr>"

subsection \<open>\<^verbatim>\<open>add_knowledge\<close>, step 3: the sentence of the neighbourhood\<close>

text \<open>
  The two nested \<^verbatim>\<open>range\<close> loops visit the cells of the 3x3 block around \<^verbatim>\<open>cell\<close> row by
  row.  The loop state is the pair of \<^verbatim>\<open>undetermined_cells\<close> and \<^verbatim>\<open>count\<close>.
\<close>

definition block :: "cell \<Rightarrow> cell list" where
  "block c = List.product [fst c - 1 .. fst c + 1] [snd c - 1 .. snd c + 1]"

definition in_bounds :: "minesweeper_ai \<Rightarrow> cell \<Rightarrow> bool" where
  "in_bounds ai c \<longleftrightarrow> 0 \<le> fst c \<and> fst c < height ai \<and> 0 \<le> snd c \<and> snd c < width ai"

definition scan_cell ::
  "minesweeper_ai \<Rightarrow> cell \<Rightarrow> cell \<Rightarrow> cell set \<times> int \<Rightarrow> cell set \<times> int" where
  "scan_cell ai c check_cell st =
     (if check_cell = c then st
      else if in_bounds ai check_cell then
        (if check_cell \<notin> moves_made ai \<and> check_cell \<notin> mines ai
         then (insert check_cell (fst st), snd st)
         else if check_cell \<in> mines ai then (fst st, snd st - 1)
         else st)
      else st)"

definition scan_block :: "minesweeper_ai \<Rightarrow> cell \<Rightarrow> int \<Rightarrow> cell set \<times> int" where
  "scan_block ai c n = fold (scan_cell ai c) (block c) ({}, n)"

definition new_sentence :: "minesweeper_ai \<Rightarrow> cell \<Rightarrow> int \<Rightarrow> sentence" where
  "new_sentence ai c n = \<lparr>cells = fst (scan_block ai c n), count = snd (scan_block ai c n)\<rparr>"

text \<open>Steps 1 to 3 of \<^verbatim>\<open>add_knowledge\<close>: record the move, mark it safe, append the sentence.\<close>

definition record_move :: "cell \<Rightarrow> int \<Rightarrow> minesweeper_ai \<Rightarrow> minesweeper_ai" where
  "record_move c n ai =
     (let ai1 = ai\<lparr>moves_made := insert c (moves_made ai)\<rparr>;
          ai2 = mark_safe c ai1
      in ai2\<lparr>knowledge := knowledge ai2 @ [new_sentence ai2 c n]\<rparr>)"

subsection \<open>\<^verbatim>\<open>add_knowledge\<close>, step 4: conclusions of each sentence\<close>

text \<open>
  A \<^verbatim>\<open>for\<close> loop over a copy of a set of cells.  Python leaves the order of a set open; the
  model visits the cells in ascending order, and \<open>mark_safe_all_order\<close> and
  \<open>mark_mine_all_order\<close> below show that every order gives the same state.
\<close>

definition mark_safe_all :: "cell set \<Rightarrow> minesweeper_ai \<Rightarrow> minesweeper_ai" where
  "mark_safe_all cs ai = fold mark_safe (sorted_list_of_set cs) ai"

definition mark_mine_all :: "cell set \<Rightarrow> minesweeper_ai \<Rightarrow> minesweeper_ai" where
  "mark_mine_all cs ai = fold mark_mine (sorted_list_of_set cs) ai"

text \<open>
  The body of the loop for the sentence at position \<open>i\<close>.  \<^verbatim>\<open>known_mines\<close> is asked after the
  safe cells were marked, so it reads the sentence as it is then.
\<close>

definition conclude_at :: "nat \<Rightarrow> minesweeper_ai \<Rightarrow> minesweeper_ai" where
  "conclude_at i ai =
     (let ai' = (case known_safes (knowledge ai ! i) of
                   None \<Rightarrow> ai
                 | Some check_new_safes \<Rightarrow> mark_safe_all check_new_safes ai)
      in case known_mines (knowledge ai' ! i) of
           None \<Rightarrow> ai'
         | Some check_new_mines \<Rightarrow> mark_mine_all check_new_mines ai')"

lemma length_fold_mark_safe [simp]:
  "length (knowledge (fold mark_safe xs ai)) = length (knowledge ai)"
  by (induction xs arbitrary: ai) (simp_all add: mark_safe_def)

lemma length_fold_mark_mine [simp]:
  "length (knowledge (fold mark_mine xs ai)) = length (knowledge ai)"
  by (induction xs arbitrary: ai) (simp_all add: mark_mine_def)

lemma length_conclude_at [simp]:
  "length (knowledge (conclude_at i ai)) = length (knowledge ai)"
  by (simp add: conclude_at_def Let_def mark_safe_all_def mark_mine_all_def
      split: option.splits)

text \<open>The loop over the list, which keeps its length while the sentences change in place.\<close>

function conclude_from :: "nat \<Rightarrow> minesweeper_ai \<Rightarrow> minesweeper_ai" where
  "conclude_from i ai =
     (if i < length (knowledge ai) then conclude_from (Suc i) (conclude_at i ai) else ai)"
  by pat_completeness auto
termination
  by (relation "measure (\<lambda>(i, ai). length (knowledge ai) - i)") auto

declare conclude_from.simps [simp del]

subsection \<open>\<^verbatim>\<open>add_knowledge\<close>, step 5: inference from pairs of sentences\<close>

text \<open>
  Both loops run over \<^verbatim>\<open>self.knowledge\<close> while the body removes from it and appends to it: a
  Python list iterator is an index into the list as it is at each step.  Step 5 changes no
  sentence, so \<^verbatim>\<open>sentence_one\<close> is a value \<open>s1\<close>; the object itself is followed by its
  position \<open>p\<close> in the list, \<open>None\<close> once it was removed.  \<^verbatim>\<open>list.remove\<close> removes the first
  element equal to its argument, which is \<open>remove1\<close>, and \<^verbatim>\<open>not in\<close> asks whether no element
  is equal to the sentence: both compare with \<^verbatim>\<open>__eq__\<close>, which is the equality of the
  records (\<open>sentence_eq_iff\<close> below).
\<close>

definition first_index :: "sentence \<Rightarrow> sentence list \<Rightarrow> nat" where
  "first_index s K = length (takeWhile (\<lambda>t. \<not> sentence_eq t s) K)"

definition shift_pos :: "nat \<Rightarrow> nat option \<Rightarrow> nat option" where
  "shift_pos k p =
     (case p of
        None \<Rightarrow> None
      | Some q \<Rightarrow> if k < q then Some (q - 1) else if k = q then None else Some q)"

definition infer_sentence :: "sentence \<Rightarrow> sentence \<Rightarrow> sentence" where
  "infer_sentence s1 s2 = \<lparr>cells = cells s2 - cells s1, count = count s2 - count s1\<rparr>"

partial_function (option) infer_inner ::
  "sentence \<Rightarrow> nat option \<Rightarrow> nat \<Rightarrow> sentence list \<Rightarrow> sentence list option" where
  "infer_inner s1 p j K =
     (if j < length K then
        (if p = Some j then infer_inner s1 p (Suc j) K
         else if sentence_eq s1 (K ! j) then
           infer_inner s1 (shift_pos (first_index (K ! j) K) p) (Suc j) (remove1 (K ! j) K)
         else if cells s1 \<subseteq> cells (K ! j) then
           (if infer_sentence s1 (K ! j) \<in> set K then infer_inner s1 p (Suc j) K
            else infer_inner s1 p (Suc j) (K @ [infer_sentence s1 (K ! j)]))
         else infer_inner s1 p (Suc j) K)
      else Some K)"

partial_function (option) infer_outer :: "nat \<Rightarrow> sentence list \<Rightarrow> sentence list option" where
  "infer_outer i K =
     (if i < length K
      then Option.bind (infer_inner (K ! i) (Some i) 0 K) (infer_outer (Suc i))
      else Some K)"

declare infer_inner.simps [code]
declare infer_outer.simps [code]

subsection \<open>\<^verbatim>\<open>add_knowledge\<close>\<close>

text \<open>The result is \<open>None\<close> when the loops of step 5 never end.\<close>

definition add_knowledge :: "cell \<Rightarrow> int \<Rightarrow> minesweeper_ai \<Rightarrow> minesweeper_ai option" where
  "add_knowledge c n ai =
     (let ai4 = conclude_from 0 (record_move c n ai)
      in map_option (\<lambda>K. ai4\<lparr>knowledge := K\<rparr>) (infer_outer 0 (knowledge ai4)))"

section \<open>Minesweeper: the board that answers the observations\<close>

text \<open>
  \<^verbatim>\<open>Minesweeper\<close> keeps its dimensions and \<^verbatim>\<open>board\<close>, a list of rows of booleans.
  \<^verbatim>\<open>is_mine\<close> reads \<^verbatim>\<open>board[i][j]\<close>; \<^verbatim>\<open>nearby_mines\<close> reads it behind the bounds check only.
\<close>

record minesweeper =
  board_height :: int
  board_width :: int
  board :: "bool list list"

definition is_mine :: "minesweeper \<Rightarrow> cell \<Rightarrow> bool" where
  "is_mine g c = board g ! nat (fst c) ! nat (snd c)"

definition count_cell :: "minesweeper \<Rightarrow> cell \<Rightarrow> cell \<Rightarrow> int \<Rightarrow> int" where
  "count_cell g c d k =
     (if d = c then k
      else if 0 \<le> fst d \<and> fst d < board_height g \<and> 0 \<le> snd d \<and> snd d < board_width g then
        (if is_mine g d then k + 1 else k)
      else k)"

definition nearby_mines :: "minesweeper \<Rightarrow> cell \<Rightarrow> int" where
  "nearby_mines g c = fold (count_cell g c) (block c) 0"

text \<open>What \<^verbatim>\<open>Minesweeper.__init__\<close> builds: \<^verbatim>\<open>height\<close> rows of \<^verbatim>\<open>width\<close> entries.\<close>

definition wf_board :: "minesweeper \<Rightarrow> bool" where
  "wf_board g \<longleftrightarrow>
     0 \<le> board_height g \<and> 0 \<le> board_width g \<and>
     length (board g) = nat (board_height g) \<and>
     (\<forall>row \<in> set (board g). length row = nat (board_width g))"

section \<open>Valid observations and reachable states\<close>

text \<open>
  An observation \<open>(c, n)\<close> is valid for a board when \<open>c\<close> is a cell of the board, is not a
  mine, and \<open>n\<close> is what \<^verbatim>\<open>nearby_mines\<close> reports for it.  The reachable states of the player
  are those that a sequence of calls of \<^verbatim>\<open>add_knowledge\<close> with valid observations, each of
  which returned, leads to from \<^verbatim>\<open>MinesweeperAI(height, width)\<close> of the board's dimensions.
\<close>

definition valid_observation :: "minesweeper \<Rightarrow> cell \<Rightarrow> int \<Rightarrow> bool" where
  "valid_observation g c n \<longleftrightarrow>
     0 \<le> fst c \<and> fst c < board_height g \<and> 0 \<le> snd c \<and> snd c < board_width g \<and>
     \<not> is_mine g c \<and> n = nearby_mines g c"

inductive reachable :: "minesweeper \<Rightarrow> minesweeper_ai \<Rightarrow> bool" for g where
  start: "wf_board g \<Longrightarrow> reachable g (init_ai (board_height g) (board_width g))"
| observe: "reachable g ai \<Longrightarrow> valid_observation g c n \<Longrightarrow> add_knowledge c n ai = Some ai' \<Longrightarrow>
     reachable g ai'"

section \<open>Invariants\<close>

text \<open>
  The cells of a board, the mines among them, and the neighbours of a cell on the board.
\<close>

definition grid :: "int \<Rightarrow> int \<Rightarrow> cell set" where
  "grid h w = {c. 0 \<le> fst c \<and> fst c < h \<and> 0 \<le> snd c \<and> snd c < w}"

definition board_mines :: "minesweeper \<Rightarrow> cell set" where
  "board_mines g = {c \<in> grid (board_height g) (board_width g). is_mine g c}"

definition around :: "int \<Rightarrow> int \<Rightarrow> cell \<Rightarrow> cell set" where
  "around h w c = {d \<in> set (block c). d \<noteq> c \<and> d \<in> grid h w}"

text \<open>
  A sentence is sound for the mines \<open>M\<close> when its cells lie on the board and its count is the
  number of mines among them.  A state is sound when no played cell and no cell held safe is
  a mine, every cell held a mine is one, and every sentence is sound.
\<close>

definition sound_sentence :: "cell set \<Rightarrow> cell set \<Rightarrow> sentence \<Rightarrow> bool" where
  "sound_sentence G M s \<longleftrightarrow> cells s \<subseteq> G \<and> count s = int (card (cells s \<inter> M))"

definition sound :: "cell set \<Rightarrow> minesweeper_ai \<Rightarrow> bool" where
  "sound M ai \<longleftrightarrow>
     moves_made ai \<inter> M = {} \<and> safes ai \<inter> M = {} \<and> mines ai \<subseteq> M \<and>
     (\<forall>s \<in> set (knowledge ai). sound_sentence (grid (height ai) (width ai)) M s)"

text \<open>The invariant of the sentences: \<open>0 \<le> count \<le> |cells|\<close>.\<close>

definition count_in_range :: "sentence \<Rightarrow> bool" where
  "count_in_range s \<longleftrightarrow> 0 \<le> count s \<and> count s \<le> int (card (cells s))"

text \<open>
  The invariant of the inner loop of step 5 on the object \<^verbatim>\<open>sentence_one\<close>: a sentence equal
  to it lies before the iterator, or the object is still in the list at its position.
\<close>

definition pos_inv :: "sentence \<Rightarrow> nat option \<Rightarrow> nat \<Rightarrow> sentence list \<Rightarrow> bool" where
  "pos_inv s1 p j K \<longleftrightarrow>
     s1 \<in> set (take j K) \<or> (\<exists>q. p = Some q \<and> q < length K \<and> K ! q = s1)"

definition closed_under_infer :: "sentence set \<Rightarrow> bool" where
  "closed_under_infer U \<longleftrightarrow>
     (\<forall>a \<in> U. \<forall>b \<in> U. cells a \<subseteq> cells b \<longrightarrow> infer_sentence a b \<in> U)"

section \<open>Four games\<close>

text \<open>
  Game A: a 3x3 board with mines at \<open>(0,0)\<close> and \<open>(1,2)\<close>; the player observes \<open>(0,2)\<close>,
  \<open>(0,1)\<close> and \<open>(1,1)\<close>.
\<close>

definition board_a :: minesweeper where
  "board_a = \<lparr>board_height = 3, board_width = 3,
     board = [[True, False, False], [False, False, True], [False, False, False]]\<rparr>"

definition ai_a1 :: minesweeper_ai where
  "ai_a1 = \<lparr>height = 3, width = 3, moves_made = {(0, 2)}, mines = {}, safes = {(0, 2)},
     knowledge = [\<lparr>cells = {(0, 1), (1, 1), (1, 2)}, count = 1\<rparr>]\<rparr>"

definition ai_a2 :: minesweeper_ai where
  "ai_a2 = \<lparr>height = 3, width = 3, moves_made = {(0, 1), (0, 2)}, mines = {},
     safes = {(0, 1), (0, 2)},
     knowledge = [\<lparr>cells = {(1, 1), (1, 2)}, count = 1\<rparr>,
       \<lparr>cells = {(0, 0), (1, 0), (1, 1), (1, 2)}, count = 2\<rparr>,
       \<lparr>cells = {(0, 0), (1, 0)}, count = 1\<rparr>]\<rparr>"

definition ai_a3 :: minesweeper_ai where
  "ai_a3 = \<lparr>height = 3, width = 3, moves_made = {(0, 1), (0, 2), (1, 1)}, mines = {(1, 2)},
     safes = {(0, 1), (0, 2), (1, 1)},
     knowledge = [\<lparr>cells = {}, count = 0\<rparr>, \<lparr>cells = {(0, 0), (1, 0)}, count = 1\<rparr>,
       \<lparr>cells = {(0, 0), (1, 0), (2, 0), (2, 1), (2, 2)}, count = 1\<rparr>]\<rparr>"

text \<open>
  Game B: a 3x3 board with one mine at \<open>(0,2)\<close>; the player observes \<open>(0,0)\<close> and \<open>(0,1)\<close>,
  and then \<open>(0,0)\<close> once more.
\<close>

definition board_b :: minesweeper where
  "board_b = \<lparr>board_height = 3, board_width = 3,
     board = [[False, False, True], [False, False, False], [False, False, False]]\<rparr>"

definition ai_b1 :: minesweeper_ai where
  "ai_b1 = \<lparr>height = 3, width = 3, moves_made = {(0, 0)}, mines = {},
     safes = {(0, 0), (0, 1), (1, 0), (1, 1)}, knowledge = [\<lparr>cells = {}, count = 0\<rparr>]\<rparr>"

definition ai_b2 :: minesweeper_ai where
  "ai_b2 = \<lparr>height = 3, width = 3, moves_made = {(0, 0), (0, 1)}, mines = {},
     safes = {(0, 0), (0, 1), (1, 0), (1, 1)},
     knowledge = [\<lparr>cells = {}, count = 0\<rparr>,
       \<lparr>cells = {(0, 2), (1, 0), (1, 1), (1, 2)}, count = 1\<rparr>]\<rparr>"


text \<open>
  Game C: a 2x3 board with one mine at \<open>(1,0)\<close>; the player observes \<open>(0,0)\<close> and \<open>(0,1)\<close>.
\<close>

definition board_c :: minesweeper where
  "board_c = \<lparr>board_height = 2, board_width = 3,
     board = [[False, False, False], [True, False, False]]\<rparr>"

definition ai_c1 :: minesweeper_ai where
  "ai_c1 = \<lparr>height = 2, width = 3, moves_made = {(0, 0)}, mines = {}, safes = {(0, 0)},
     knowledge = [\<lparr>cells = {(0, 1), (1, 0), (1, 1)}, count = 1\<rparr>]\<rparr>"

definition ai_c2 :: minesweeper_ai where
  "ai_c2 = \<lparr>height = 2, width = 3, moves_made = {(0, 0), (0, 1)}, mines = {},
     safes = {(0, 0), (0, 1)},
     knowledge = [\<lparr>cells = {(1, 0), (1, 1)}, count = 1\<rparr>,
       \<lparr>cells = {(0, 2), (1, 0), (1, 1), (1, 2)}, count = 1\<rparr>,
       \<lparr>cells = {(0, 2), (1, 2)}, count = 0\<rparr>]\<rparr>"

text \<open>
  Game D: a 1x4 board with one mine at \<open>(0,1)\<close>; the player observes \<open>(0,2)\<close> and \<open>(0,0)\<close>.
\<close>

definition board_d :: minesweeper where
  "board_d = \<lparr>board_height = 1, board_width = 4, board = [[False, True, False, False]]\<rparr>"

definition ai_d1 :: minesweeper_ai where
  "ai_d1 = \<lparr>height = 1, width = 4, moves_made = {(0, 2)}, mines = {}, safes = {(0, 2)},
     knowledge = [\<lparr>cells = {(0, 1), (0, 3)}, count = 1\<rparr>]\<rparr>"

definition ai_d2 :: minesweeper_ai where
  "ai_d2 = \<lparr>height = 1, width = 4, moves_made = {(0, 0), (0, 2)}, mines = {(0, 1)},
     safes = {(0, 0), (0, 2)},
     knowledge = [\<lparr>cells = {(0, 3)}, count = 0\<rparr>, \<lparr>cells = {}, count = 0\<rparr>]\<rparr>"

section \<open>Lemmas\<close>

lemma finite_grid [simp]: "finite (grid h w)"
proof -
  have "grid h w \<subseteq> {0..<h} \<times> {0..<w}" by (auto simp: grid_def)
  then show ?thesis by (rule finite_subset) simp
qed

lemma distinct_block [simp]: "distinct (block c)"
  by (simp add: block_def distinct_product)

lemma fold_count_cell:
  "fold (count_cell g c) xs k =
     k + int (length (filter (\<lambda>d. d \<noteq> c \<and> d \<in> board_mines g) xs))"
  by (induction xs arbitrary: k) (auto simp: count_cell_def board_mines_def grid_def)

lemma nearby_mines_card:
  "nearby_mines g c = int (card (around (board_height g) (board_width g) c \<inter> board_mines g))"
proof -
  have "{d \<in> set (block c). d \<noteq> c \<and> d \<in> board_mines g} =
        around (board_height g) (board_width g) c \<inter> board_mines g"
    by (auto simp: around_def board_mines_def)
  then show ?thesis
    by (simp add: nearby_mines_def fold_count_cell distinct_length_filter Collect_conj_eq Int_commute)
qed

lemma sentence_eq_iff [simp]: "sentence_eq s t \<longleftrightarrow> s = t"
  by (cases s, cases t) (auto simp: sentence_eq_def)

lemma sound_Sentence_mark_safe:
  "sound_sentence G M s \<Longrightarrow> c \<notin> M \<Longrightarrow> sound_sentence G M (Sentence_mark_safe c s)"
proof -
  assume s: "sound_sentence G M s" and c: "c \<notin> M"
  have "(cells s - {c}) \<inter> M = cells s \<inter> M" using c by auto
  with s show ?thesis by (auto simp: sound_sentence_def Sentence_mark_safe_def)
qed

lemma sound_Sentence_mark_mine:
  assumes s: "sound_sentence G M s" and G: "finite G" and c: "c \<in> M"
  shows "sound_sentence G M (Sentence_mark_mine c s)"
proof (cases "c \<in> cells s")
  case False
  with s show ?thesis by (simp add: Sentence_mark_mine_def)
next
  case True
  have fin: "finite (cells s \<inter> M)" using s G by (auto simp: sound_sentence_def intro: finite_subset)
  have eq: "(cells s - {c}) \<inter> M = cells s \<inter> M - {c}" by auto
  have "c \<in> cells s \<inter> M" using True c by simp
  then have "card (cells s \<inter> M - {c}) = card (cells s \<inter> M) - 1" "card (cells s \<inter> M) > 0"
    using fin by (auto simp: card_gt_0_iff)
  with s True show ?thesis
    by (auto simp: sound_sentence_def Sentence_mark_mine_def eq)
qed

lemma sound_mark_safe: "sound M ai \<Longrightarrow> c \<notin> M \<Longrightarrow> sound M (mark_safe c ai)"
  by (auto simp: sound_def mark_safe_def intro: sound_Sentence_mark_safe)

lemma sound_mark_mine: "sound M ai \<Longrightarrow> c \<in> M \<Longrightarrow> sound M (mark_mine c ai)"
  by (auto simp: sound_def mark_mine_def intro: sound_Sentence_mark_mine)

lemma sound_fold_mark_safe:
  "sound M ai \<Longrightarrow> set xs \<inter> M = {} \<Longrightarrow> sound M (fold mark_safe xs ai)"
  by (induction xs arbitrary: ai) (auto intro: sound_mark_safe)

lemma sound_fold_mark_mine:
  "sound M ai \<Longrightarrow> set xs \<subseteq> M \<Longrightarrow> sound M (fold mark_mine xs ai)"
  by (induction xs arbitrary: ai) (auto intro: sound_mark_mine)

lemma fixed_dims_fold_mark_safe [simp]:
  "height (fold mark_safe xs ai) = height ai" "width (fold mark_safe xs ai) = width ai"
  by (induction xs arbitrary: ai) (simp_all add: mark_safe_def)

lemma fixed_dims_fold_mark_mine [simp]:
  "height (fold mark_mine xs ai) = height ai" "width (fold mark_mine xs ai) = width ai"
  by (induction xs arbitrary: ai) (simp_all add: mark_mine_def)

lemma sound_known_safes:
  assumes "sound_sentence G M s" "finite G" "known_safes s = Some cs"
  shows "cs \<inter> M = {}" "finite cs"
proof -
  have fin: "finite (cells s)" using assms by (auto simp: sound_sentence_def intro: finite_subset)
  from assms show "cs \<inter> M = {}" using fin
    by (auto simp: sound_sentence_def known_safes_def split: if_splits)
  from assms fin show "finite cs" by (auto simp: known_safes_def split: if_splits)
qed

lemma sound_known_mines:
  assumes "sound_sentence G M s" "finite G" "known_mines s = Some cs"
  shows "cs \<subseteq> M" "finite cs"
proof -
  have fin: "finite (cells s)" using assms by (auto simp: sound_sentence_def intro: finite_subset)
  have "card (cells s \<inter> M) = card (cells s)" "cs = cells s"
    using assms by (auto simp: sound_sentence_def known_mines_def split: if_splits)
  then have "cells s \<inter> M = cells s" using fin by (metis card_subset_eq inf_le1)
  then show "cs \<subseteq> M" using \<open>cs = cells s\<close> by auto
  show "finite cs" using fin \<open>cs = cells s\<close> by simp
qed

lemma sound_conclude_at:
  assumes "sound M ai" "i < length (knowledge ai)"
  shows "sound M (conclude_at i ai)"
proof -
  let ?G = "grid (height ai) (width ai)"
  define ai' where "ai' = (case known_safes (knowledge ai ! i) of
       None \<Rightarrow> ai | Some cs \<Rightarrow> mark_safe_all cs ai)"
  have si: "sound_sentence ?G M (knowledge ai ! i)"
    using assms by (simp add: sound_def)
  have s': "sound M ai'"
  proof (cases "known_safes (knowledge ai ! i)")
    case None then show ?thesis using assms by (simp add: ai'_def)
  next
    case (Some cs)
    then have "cs \<inter> M = {}" "finite cs" using sound_known_safes[OF si] by simp_all
    then show ?thesis using assms Some
      by (simp add: ai'_def mark_safe_all_def sound_fold_mark_safe)
  qed
  have dims: "height ai' = height ai" "width ai' = width ai" "length (knowledge ai') = length (knowledge ai)"
    by (simp_all add: ai'_def mark_safe_all_def split: option.splits)
  have si': "sound_sentence ?G M (knowledge ai' ! i)"
    using s' assms(2) dims by (simp add: sound_def)
  have "sound M (case known_mines (knowledge ai' ! i) of
       None \<Rightarrow> ai' | Some cs \<Rightarrow> mark_mine_all cs ai')"
  proof (cases "known_mines (knowledge ai' ! i)")
    case None then show ?thesis using s' by simp
  next
    case (Some cs)
    then have "cs \<subseteq> M" "finite cs" using sound_known_mines[OF si'] by simp_all
    then show ?thesis using s' Some
      by (simp add: mark_mine_all_def sound_fold_mark_mine)
  qed
  then show ?thesis unfolding conclude_at_def Let_def ai'_def .
qed

lemma sound_conclude_from: "sound M ai \<Longrightarrow> sound M (conclude_from i ai)"
proof (induction i ai rule: conclude_from.induct)
  case (1 i ai)
  show ?case
  proof (cases "i < length (knowledge ai)")
    case True
    then show ?thesis using 1 by (subst conclude_from.simps) (simp add: sound_conclude_at)
  next
    case False
    then show ?thesis using 1 by (subst conclude_from.simps) simp
  qed
qed

lemma in_bounds_grid: "in_bounds ai d \<longleftrightarrow> d \<in> grid (height ai) (width ai)"
  by (simp add: in_bounds_def grid_def)

lemma finite_around [simp]: "finite (around h w c)"
  by (simp add: around_def)

lemma fold_scan_cell:
  "fold (scan_cell ai c) xs (U, k) =
     (U \<union> {d \<in> set xs. d \<noteq> c \<and> in_bounds ai d \<and> d \<notin> moves_made ai \<and> d \<notin> mines ai},
      k - int (length (filter (\<lambda>d. d \<noteq> c \<and> in_bounds ai d \<and> d \<in> mines ai) xs)))"
  by (induction xs arbitrary: U k) (auto simp: scan_cell_def)

lemma cells_new_sentence:
  "cells (new_sentence ai c n) =
     around (height ai) (width ai) c - moves_made ai - mines ai"
  by (auto simp: new_sentence_def scan_block_def fold_scan_cell around_def in_bounds_grid)

lemma count_new_sentence:
  "count (new_sentence ai c n) = n - int (card (around (height ai) (width ai) c \<inter> mines ai))"
proof -
  have "{d \<in> set (block c). d \<noteq> c \<and> in_bounds ai d \<and> d \<in> mines ai} =
        around (height ai) (width ai) c \<inter> mines ai"
    by (auto simp: around_def in_bounds_grid)
  then show ?thesis
    by (simp add: new_sentence_def scan_block_def fold_scan_cell distinct_length_filter
        Collect_conj_eq Int_commute)
qed

lemma sound_new_sentence:
  assumes "moves_made ai \<inter> M = {}" "mines ai \<subseteq> M"
    and n: "n = int (card (around (height ai) (width ai) c \<inter> M))"
  shows "sound_sentence (grid (height ai) (width ai)) M (new_sentence ai c n)"
proof -
  let ?A = "around (height ai) (width ai) c"
  let ?U = "?A - moves_made ai - mines ai"
  have split: "?A \<inter> M = (?U \<inter> M) \<union> (?A \<inter> mines ai)" using assms(1,2) by auto
  have "card (?A \<inter> M) = card (?U \<inter> M) + card (?A \<inter> mines ai)"
    by (subst split, rule card_Un_disjoint) auto
  then have "int (card (?U \<inter> M)) = n - int (card (?A \<inter> mines ai))"
    using n by simp
  moreover have "?U \<subseteq> grid (height ai) (width ai)" by (auto simp: around_def)
  ultimately show ?thesis
    by (simp add: sound_sentence_def cells_new_sentence count_new_sentence)
qed

lemma sound_record_move:
  assumes "sound M ai" "c \<notin> M"
    and n: "n = int (card (around (height ai) (width ai) c \<inter> M))"
  shows "sound M (record_move c n ai)"
proof -
  define ai2 where "ai2 = mark_safe c (ai\<lparr>moves_made := insert c (moves_made ai)\<rparr>)"
  have "sound M (ai\<lparr>moves_made := insert c (moves_made ai)\<rparr>)"
    using assms(1,2) by (simp add: sound_def)
  then have s2: "sound M ai2" using assms(2) by (simp add: ai2_def sound_mark_safe)
  have dims: "height ai2 = height ai" "width ai2 = width ai" by (simp_all add: ai2_def mark_safe_def)
  have "sound_sentence (grid (height ai2) (width ai2)) M (new_sentence ai2 c n)"
    using s2 n dims by (intro sound_new_sentence) (simp_all add: sound_def)
  then have "sound M (ai2\<lparr>knowledge := knowledge ai2 @ [new_sentence ai2 c n]\<rparr>)"
    using s2 by (auto simp: sound_def)
  then show ?thesis unfolding record_move_def Let_def ai2_def .
qed

lemma sound_infer_sentence:
  assumes "sound_sentence G M s1" "sound_sentence G M s2" "finite G" "cells s1 \<subseteq> cells s2"
  shows "sound_sentence G M (infer_sentence s1 s2)"
proof -
  have fin: "finite (cells s1 \<inter> M)" "finite (cells s2 \<inter> M)"
    using assms by (auto simp: sound_sentence_def intro: finite_subset)
  have eq: "(cells s2 - cells s1) \<inter> M = cells s2 \<inter> M - cells s1 \<inter> M" by auto
  have sub: "cells s1 \<inter> M \<subseteq> cells s2 \<inter> M" using assms(4) by auto
  have "card ((cells s2 - cells s1) \<inter> M) = card (cells s2 \<inter> M) - card (cells s1 \<inter> M)"
    unfolding eq using fin sub by (simp add: card_Diff_subset)
  moreover have "card (cells s1 \<inter> M) \<le> card (cells s2 \<inter> M)"
    using fin sub by (simp add: card_mono)
  ultimately show ?thesis using assms(1,2)
    by (auto simp: sound_sentence_def infer_sentence_def)
qed

lemma first_index_eq: "first_index s K = length (takeWhile (\<lambda>t. t \<noteq> s) K)"
  by (simp add: first_index_def)

lemma remove1_split:
  "x \<in> set xs \<Longrightarrow>
   remove1 x xs = take (first_index x xs) xs @ drop (Suc (first_index x xs)) xs"
  by (induction xs) (auto simp: first_index_eq)

lemma first_index_le: "a < length xs \<Longrightarrow> xs ! a = x \<Longrightarrow> first_index x xs \<le> a"
proof (induction xs arbitrary: a)
  case Nil then show ?case by simp
next
  case (Cons y ys)
  then show ?case by (cases a) (auto simp: first_index_eq)
qed

lemma occurs_twice:
  assumes "a < b" "b < length xs" "xs ! a = x" "xs ! b = x"
  shows "first_index x xs < b" "remove1 x xs ! (b - 1) = x" "x \<in> set (remove1 x xs)"
    "set (remove1 x xs) = set xs"
proof -
  have xin: "x \<in> set xs" using assms by (metis nth_mem)
  have k: "first_index x xs \<le> a" using assms by (intro first_index_le) simp_all
  then show "first_index x xs < b" using assms by simp
  have len: "length (take (first_index x xs) xs) = first_index x xs" using k assms by simp
  have "remove1 x xs ! (b - 1) = drop (Suc (first_index x xs)) xs ! (b - 1 - first_index x xs)"
    using k assms by (simp add: remove1_split[OF xin] nth_append len del: length_take)
  also have "\<dots> = xs ! b" using k assms by simp
  finally show r: "remove1 x xs ! (b - 1) = x" using assms by simp
  have "b - 1 < length (remove1 x xs)" using assms xin by (simp add: length_remove1)
  with r show x2: "x \<in> set (remove1 x xs)" by (metis nth_mem)
  show "set (remove1 x xs) = set xs"
  proof
    show "set (remove1 x xs) \<subseteq> set xs" by (rule set_remove1_subset)
    show "set xs \<subseteq> set (remove1 x xs)"
    proof
      fix y assume "y \<in> set xs"
      then show "y \<in> set (remove1 x xs)" using x2 by (cases "y = x") simp_all
    qed
  qed
qed

lemma take_Suc_mono: "x \<in> set (take j K) \<Longrightarrow> x \<in> set (take (Suc j) K)"
  using set_take_subset_set_take[of j "Suc j" K] by auto

lemma pos_inv_Suc: "pos_inv s1 p j K \<Longrightarrow> pos_inv s1 p (Suc j) K"
  unfolding pos_inv_def by (blast intro: take_Suc_mono)

lemma pos_inv_append: "pos_inv s1 p j K \<Longrightarrow> pos_inv s1 p (Suc j) (K @ [u])"
proof -
  assume "pos_inv s1 p j K"
  then consider "s1 \<in> set (take j K)" | q where "p = Some q" "q < length K" "K ! q = s1"
    unfolding pos_inv_def by blast
  then show ?thesis
  proof cases
    case 1
    then have "s1 \<in> set (take (Suc j) K)" by (rule take_Suc_mono)
    then show ?thesis unfolding pos_inv_def by simp
  next
    case 2
    then have "q < length (K @ [u])" "(K @ [u]) ! q = s1" by (simp_all add: nth_append)
    with 2(1) show ?thesis unfolding pos_inv_def by blast
  qed
qed

lemma pos_inv_split:
  assumes "pos_inv s1 p j K" "p \<noteq> Some j"
  shows "(\<exists>a<j. K ! a = s1) \<or> (\<exists>q. p = Some q \<and> j < q \<and> q < length K \<and> K ! q = s1)"
  using assms(1) unfolding pos_inv_def
proof
  assume "s1 \<in> set (take j K)"
  then obtain a where "a < length (take j K)" "take j K ! a = s1"
    by (auto simp: in_set_conv_nth)
  then have "a < j" "K ! a = s1" by simp_all
  then show ?thesis by blast
next
  assume "\<exists>q. p = Some q \<and> q < length K \<and> K ! q = s1"
  then obtain q where q: "p = Some q" "q < length K" "K ! q = s1" by blast
  with assms(2) have "q \<noteq> j" by auto
  then consider "q < j" | "j < q" by linarith
  then show ?thesis using q by cases blast+
qed

lemma pos_inv_remove:
  assumes j: "j < length K" and Kj: "K ! j = s1" and p: "p \<noteq> Some j" and inv: "pos_inv s1 p j K"
  shows "set (remove1 s1 K) = set K"
    and "pos_inv s1 (shift_pos (first_index s1 K) p) (Suc j) (remove1 s1 K)"
proof -
  have len: "length (remove1 s1 K) = length K - 1"
    using j Kj by (metis length_remove1 nth_mem)
  from pos_inv_split[OF inv p]
  consider a where "a < j" "K ! a = s1"
    | q where "p = Some q" "j < q" "q < length K" "K ! q = s1"
    by blast
  then show "set (remove1 s1 K) = set K"
  proof cases
    case 1 then show ?thesis using occurs_twice(4)[of a j K s1] j Kj by simp
  next
    case 2 then show ?thesis using occurs_twice(4)[of j q K s1] Kj by simp
  qed
  from pos_inv_split[OF inv p]
  consider a where "a < j" "K ! a = s1"
    | q where "p = Some q" "j < q" "q < length K" "K ! q = s1"
    by blast
  then show "pos_inv s1 (shift_pos (first_index s1 K) p) (Suc j) (remove1 s1 K)"
  proof cases
    case (1 a)
    then have "remove1 s1 K ! (j - 1) = s1" using occurs_twice(2)[of a j K s1] j Kj by simp
    moreover have b: "j - 1 < length (remove1 s1 K)" "j - 1 < Suc j" using j 1 len by arith+
    ultimately have "take (Suc j) (remove1 s1 K) ! (j - 1) = s1"
      "j - 1 < length (take (Suc j) (remove1 s1 K))" by simp_all
    then have "s1 \<in> set (take (Suc j) (remove1 s1 K))" by (metis nth_mem)
    then show ?thesis unfolding pos_inv_def by simp
  next
    case (2 q)
    then have "first_index s1 K < q" "remove1 s1 K ! (q - 1) = s1"
      using occurs_twice(1,2)[of j q K s1] Kj by simp_all
    moreover have "q - 1 < length (remove1 s1 K)" using 2 len by simp
    ultimately show ?thesis using 2(1) unfolding pos_inv_def shift_pos_def by simp
  qed
qed

lemma card_Diff_append:
  assumes "finite U" "u \<in> U" "u \<notin> set K"
  shows "card (U - set (K @ [u])) < card (U - set K)"
proof -
  have "U - set (K @ [u]) \<subset> U - set K" using assms by auto
  then show ?thesis using assms(1) by (intro psubset_card_mono) simp_all
qed

lemma infer_inner_returns:
  assumes U: "finite U" "closed_under_infer U"
  shows "set K \<subseteq> U \<Longrightarrow> s1 \<in> U \<Longrightarrow> pos_inv s1 p j K \<Longrightarrow>
    \<exists>K'. infer_inner s1 p j K = Some K' \<and> set K \<subseteq> set K' \<and> set K' \<subseteq> U \<and>
          (set K' = set K \<longrightarrow> length K' \<le> length K)"
proof (induction "(card (U - set K), length K - j)" arbitrary: K j p
    rule: wf_induct_rule[OF wf_lex_prod[OF wf_less_than wf_less_than]])
  case less: 1
  note IH = less(1) and KU = less(2) and s1 = less(3) and inv = less(4)
  show ?case
  proof (cases "j < length K")
    case False
    then show ?thesis using KU by (subst infer_inner.simps) simp
  next
    case j: True
    have next_same: "\<exists>K'. infer_inner s1 p (Suc j) K = Some K' \<and> set K \<subseteq> set K' \<and> set K' \<subseteq> U \<and>
          (set K' = set K \<longrightarrow> length K' \<le> length K)"
      using j KU s1 inv by (intro IH) (auto intro: pos_inv_Suc)
    show ?thesis
    proof (cases "p = Some j")
      case True
      then show ?thesis using next_same j by (subst infer_inner.simps) simp
    next
      case pj: False
      show ?thesis
      proof (cases "K ! j = s1")
        case True
        let ?K2 = "remove1 s1 K" and ?p2 = "shift_pos (first_index s1 K) p"
        have set2: "set ?K2 = set K" and inv2: "pos_inv s1 ?p2 (Suc j) ?K2"
          using pos_inv_remove[OF j True pj inv] by simp_all
        have len2: "length ?K2 = length K - 1" using j True by (metis length_remove1 nth_mem)
        have "\<exists>K'. infer_inner s1 ?p2 (Suc j) ?K2 = Some K' \<and> set ?K2 \<subseteq> set K' \<and> set K' \<subseteq> U \<and>
          (set K' = set ?K2 \<longrightarrow> length K' \<le> length ?K2)"
          using j KU s1 inv2 set2 len2 by (intro IH) auto
        then obtain K' where K': "infer_inner s1 ?p2 (Suc j) ?K2 = Some K'" "set ?K2 \<subseteq> set K'"
          "set K' \<subseteq> U" "set K' = set ?K2 \<longrightarrow> length K' \<le> length ?K2" by blast
        have "infer_inner s1 p j K = Some K'"
          using j pj True K'(1) by (subst infer_inner.simps) simp
        then show ?thesis using K' set2 len2 by auto
      next
        case neq: False
        show ?thesis
        proof (cases "cells s1 \<subseteq> cells (K ! j) \<and> infer_sentence s1 (K ! j) \<notin> set K")
          case False
          then have "infer_inner s1 p j K = infer_inner s1 p (Suc j) K"
            using j pj neq by (subst infer_inner.simps) auto
          then show ?thesis using next_same by simp
        next
          case True
          let ?u = "infer_sentence s1 (K ! j)"
          have uU: "?u \<in> U" using U(2) s1 KU j True unfolding closed_under_infer_def
            by (meson nth_mem subsetD)
          have dec: "card (U - set (K @ [?u])) < card (U - set K)"
            using U(1) uU True by (intro card_Diff_append) simp_all
          have "\<exists>K'. infer_inner s1 p (Suc j) (K @ [?u]) = Some K' \<and> set (K @ [?u]) \<subseteq> set K' \<and>
            set K' \<subseteq> U \<and> (set K' = set (K @ [?u]) \<longrightarrow> length K' \<le> length (K @ [?u]))"
            using dec KU s1 uU inv by (intro IH) (auto intro: pos_inv_append)
          then obtain K' where K': "infer_inner s1 p (Suc j) (K @ [?u]) = Some K'"
            "set (K @ [?u]) \<subseteq> set K'" "set K' \<subseteq> U" by blast
          have "infer_inner s1 p j K = Some K'"
            using j pj neq True K'(1) by (subst infer_inner.simps) simp
          moreover have "set K' \<noteq> set K" using K'(2) True by auto
          ultimately show ?thesis using K' by auto
        qed
      qed
    qed
  qed
qed

lemma infer_outer_returns:
  assumes U: "finite U" "closed_under_infer U"
  shows "set K \<subseteq> U \<Longrightarrow> \<exists>K'. infer_outer i K = Some K' \<and> set K \<subseteq> set K' \<and> set K' \<subseteq> U"
proof (induction "(card (U - set K), length K - i)" arbitrary: K i
    rule: wf_induct_rule[OF wf_lex_prod[OF wf_less_than wf_less_than]])
  case less: 1
  note IH = less(1) and KU = less(2)
  show ?case
  proof (cases "i < length K")
    case False
    then show ?thesis using KU by (subst infer_outer.simps) simp
  next
    case i: True
    have "pos_inv (K ! i) (Some i) 0 K" using i by (simp add: pos_inv_def)
    moreover have "K ! i \<in> U" using i KU by (meson nth_mem subsetD)
    ultimately obtain K1 where K1: "infer_inner (K ! i) (Some i) 0 K = Some K1" "set K \<subseteq> set K1"
      "set K1 \<subseteq> U" "set K1 = set K \<longrightarrow> length K1 \<le> length K"
      using infer_inner_returns[OF U KU] by blast
    have dec: "((card (U - set K1), length K1 - Suc i), (card (U - set K), length K - i))
        \<in> less_than <*lex*> less_than"
    proof (cases "set K1 = set K")
      case True
      then show ?thesis using K1(4) i by auto
    next
      case False
      then have "U - set K1 \<subset> U - set K" using K1(2,3) by auto
      then have "card (U - set K1) < card (U - set K)"
        using U(1) by (intro psubset_card_mono) simp_all
      then show ?thesis by simp
    qed
    obtain K' where K': "infer_outer (Suc i) K1 = Some K'" "set K1 \<subseteq> set K'" "set K' \<subseteq> U"
      using IH[OF dec K1(3)] by blast
    have "infer_outer i K = Some K'"
      using i K1(1) K'(1) by (subst infer_outer.simps) simp
    then show ?thesis using K' K1(2) by auto
  qed
qed

lemma finite_sound_sentences: "finite G \<Longrightarrow> finite {s. sound_sentence G M s}"
proof -
  assume G: "finite G"
  have "{s. sound_sentence G M s} \<subseteq> (\<lambda>C. \<lparr>cells = C, count = int (card (C \<inter> M))\<rparr>) ` Pow G"
  proof
    fix s assume "s \<in> {s. sound_sentence G M s}"
    then have "cells s \<in> Pow G" "s = \<lparr>cells = cells s, count = int (card (cells s \<inter> M))\<rparr>"
      by (simp_all add: sound_sentence_def)
    then show "s \<in> (\<lambda>C. \<lparr>cells = C, count = int (card (C \<inter> M))\<rparr>) ` Pow G" by (rule rev_image_eqI)
  qed
  moreover have "finite ((\<lambda>C. \<lparr>cells = C, count = int (card (C \<inter> M))\<rparr>) ` Pow G)"
    using G by simp
  ultimately show ?thesis by (rule finite_subset)
qed

lemma closed_sound_sentences: "finite G \<Longrightarrow> closed_under_infer {s. sound_sentence G M s}"
  by (simp add: closed_under_infer_def sound_infer_sentence)

lemma fixed_dims_conclude_at [simp]:
  "height (conclude_at i ai) = height ai" "width (conclude_at i ai) = width ai"
  by (simp_all add: conclude_at_def Let_def mark_safe_all_def mark_mine_all_def split: option.splits)

lemma fixed_dims_conclude_from [simp]:
  "height (conclude_from i ai) = height ai \<and> width (conclude_from i ai) = width ai"
proof (induction i ai rule: conclude_from.induct)
  case (1 i ai)
  then show ?case by (subst (1 2) conclude_from.simps) simp
qed

lemma fixed_dims_record_move [simp]:
  "height (record_move c n ai) = height ai" "width (record_move c n ai) = width ai"
  by (simp_all add: record_move_def Let_def mark_safe_def)

lemma add_knowledge_sound:
  assumes "sound M ai" "c \<notin> M" "n = int (card (around (height ai) (width ai) c \<inter> M))"
  shows "\<exists>ai'. add_knowledge c n ai = Some ai' \<and> sound M ai' \<and>
           height ai' = height ai \<and> width ai' = width ai"
proof -
  define ai4 where "ai4 = conclude_from 0 (record_move c n ai)"
  let ?U = "{s. sound_sentence (grid (height ai) (width ai)) M s}"
  have s4: "sound M ai4" unfolding ai4_def
    using assms by (intro sound_conclude_from sound_record_move)
  have dims: "height ai4 = height ai" "width ai4 = width ai" by (simp_all add: ai4_def)
  have sub: "set (knowledge ai4) \<subseteq> ?U" using s4 dims by (auto simp: sound_def)
  have fin: "finite ?U" by (rule finite_sound_sentences) simp
  have cl: "closed_under_infer ?U" by (rule closed_sound_sentences) simp
  obtain K where K: "infer_outer 0 (knowledge ai4) = Some K" "set K \<subseteq> ?U"
    using infer_outer_returns[OF fin cl sub, of 0] by blast
  have "add_knowledge c n ai = Some (ai4\<lparr>knowledge := K\<rparr>)"
    using K(1) by (simp add: add_knowledge_def ai4_def[symmetric] Let_def)
  moreover have "sound M (ai4\<lparr>knowledge := K\<rparr>)" using s4 K(2) dims by (auto simp: sound_def)
  ultimately show ?thesis using dims by simp
qed

lemma reachable_sound:
  "reachable g ai \<Longrightarrow>
   sound (board_mines g) ai \<and> height ai = board_height g \<and> width ai = board_width g"
proof (induction rule: reachable.induct)
  case start
  then show ?case by (simp add: sound_def init_ai_def)
next
  case (observe ai c n ai')
  have "c \<notin> board_mines g" using observe.hyps(2) by (simp add: valid_observation_def board_mines_def)
  moreover have "n = int (card (around (height ai) (width ai) c \<inter> board_mines g))"
    using observe.hyps(2) observe.IH by (simp add: valid_observation_def nearby_mines_card)
  ultimately show ?case
    using add_knowledge_sound[of "board_mines g" ai c n] observe.IH observe.hyps(3) by auto
qed

lemma grows_fold_mark_safe:
  "moves_made (fold mark_safe xs ai) = moves_made ai \<and>
   safes (fold mark_safe xs ai) = safes ai \<union> set xs \<and>
   mines (fold mark_safe xs ai) = mines ai"
  by (induction xs arbitrary: ai) (simp_all add: mark_safe_def)

lemma grows_fold_mark_mine:
  "moves_made (fold mark_mine xs ai) = moves_made ai \<and>
   safes (fold mark_mine xs ai) = safes ai \<and>
   mines (fold mark_mine xs ai) = mines ai \<union> set xs"
  by (induction xs arbitrary: ai) (simp_all add: mark_mine_def)

lemma grows_conclude_at:
  "moves_made (conclude_at i ai) = moves_made ai \<and>
   safes ai \<subseteq> safes (conclude_at i ai) \<and> mines ai \<subseteq> mines (conclude_at i ai)"
proof -
  define ai' where "ai' = (case known_safes (knowledge ai ! i) of
       None \<Rightarrow> ai | Some cs \<Rightarrow> mark_safe_all cs ai)"
  have 1: "moves_made ai' = moves_made ai \<and> safes ai \<subseteq> safes ai' \<and> mines ai' = mines ai"
    using grows_fold_mark_safe by (simp add: ai'_def mark_safe_all_def split: option.splits)
  define ai'' where "ai'' = (case known_mines (knowledge ai' ! i) of
       None \<Rightarrow> ai' | Some cs \<Rightarrow> mark_mine_all cs ai')"
  have 2: "moves_made ai'' = moves_made ai' \<and> safes ai'' = safes ai' \<and> mines ai' \<subseteq> mines ai''"
    using grows_fold_mark_mine by (simp add: ai''_def mark_mine_all_def split: option.splits)
  have "conclude_at i ai = ai''" unfolding conclude_at_def Let_def ai''_def ai'_def ..
  then show ?thesis using 1 2 by auto
qed

lemma grows_conclude_from:
  "moves_made (conclude_from i ai) = moves_made ai \<and>
   safes ai \<subseteq> safes (conclude_from i ai) \<and> mines ai \<subseteq> mines (conclude_from i ai)"
proof (induction i ai rule: conclude_from.induct)
  case (1 i ai)
  show ?case
  proof (cases "i < length (knowledge ai)")
    case True
    then have "conclude_from i ai = conclude_from (Suc i) (conclude_at i ai)"
      by (subst conclude_from.simps) simp
    then show ?thesis using 1[OF True] grows_conclude_at[of i ai] by auto
  next
    case False
    then show ?thesis by (subst (1 2 3) conclude_from.simps) simp
  qed
qed

lemma grows_record_move:
  "moves_made (record_move c n ai) = insert c (moves_made ai) \<and>
   safes (record_move c n ai) = insert c (safes ai) \<and> mines (record_move c n ai) = mines ai"
  by (simp add: record_move_def Let_def mark_safe_def)

lemma add_knowledge_sets:
  assumes "add_knowledge c n ai = Some ai'"
  shows "moves_made ai' = insert c (moves_made ai)" "insert c (safes ai) \<subseteq> safes ai'"
    "mines ai \<subseteq> mines ai'"
proof -
  define ai4 where "ai4 = conclude_from 0 (record_move c n ai)"
  from assms obtain K where "ai' = ai4\<lparr>knowledge := K\<rparr>"
    by (auto simp: add_knowledge_def Let_def ai4_def)
  then have "moves_made ai' = moves_made ai4" "safes ai' = safes ai4" "mines ai' = mines ai4"
    by simp_all
  then show "moves_made ai' = insert c (moves_made ai)" "insert c (safes ai) \<subseteq> safes ai'"
    "mines ai \<subseteq> mines ai'"
    using grows_conclude_from[of 0 "record_move c n ai"] grows_record_move[of c n ai]
    by (simp_all add: ai4_def)
qed

lemma length_conclude_from [simp]:
  "length (knowledge (conclude_from i ai)) = length (knowledge ai)"
proof (induction i ai rule: conclude_from.induct)
  case (1 i ai)
  then show ?case by (subst conclude_from.simps) simp
qed

lemma sound_count_in_range:
  assumes "sound_sentence G M s" "finite G"
  shows "count_in_range s"
proof -
  have "finite (cells s)" using assms by (auto simp: sound_sentence_def intro: finite_subset)
  then have "card (cells s \<inter> M) \<le> card (cells s)" by (intro card_mono) simp_all
  then show ?thesis using assms(1) by (simp add: count_in_range_def sound_sentence_def)
qed

subsection \<open>The order in which a set of cells is marked\<close>

lemma Sentence_mark_safe_eq: "Sentence_mark_safe c s = s\<lparr>cells := cells s - {c}\<rparr>"
proof (cases "c \<in> cells s")
  case True
  then show ?thesis by (simp add: Sentence_mark_safe_def)
next
  case False
  then have "cells s - {c} = cells s" by auto
  then show ?thesis using False by (simp add: Sentence_mark_safe_def)
qed

lemma Sentence_mark_mine_eq:
  "Sentence_mark_mine c s =
     s\<lparr>cells := cells s - {c}, count := count s - int (card (cells s \<inter> {c}))\<rparr>"
proof (cases "c \<in> cells s")
  case True
  then have "cells s \<inter> {c} = {c}" by auto
  then show ?thesis using True by (simp add: Sentence_mark_mine_def)
next
  case False
  then have "cells s - {c} = cells s" "cells s \<inter> {c} = {}" by auto
  then show ?thesis using False by (simp add: Sentence_mark_mine_def)
qed

lemma fold_mark_safe:
  "fold mark_safe xs ai =
     ai\<lparr>safes := safes ai \<union> set xs,
        knowledge := map (\<lambda>s. s\<lparr>cells := cells s - set xs\<rparr>) (knowledge ai)\<rparr>"
proof (induction xs arbitrary: ai)
  case Nil
  have "map (\<lambda>s. s\<lparr>cells := cells s - set []\<rparr>) (knowledge ai) = knowledge ai"
    by (rule map_idI) simp
  then show ?case by simp
next
  case (Cons x xs)
  have 1: "\<And>s. cells s - {x} - set xs = cells s - insert x (set xs)" by auto
  have "fold mark_safe (x # xs) ai = fold mark_safe xs (mark_safe x ai)" by simp
  also have "\<dots> = (mark_safe x ai)\<lparr>safes := safes (mark_safe x ai) \<union> set xs,
        knowledge := map (\<lambda>s. s\<lparr>cells := cells s - set xs\<rparr>) (knowledge (mark_safe x ai))\<rparr>"
    by (rule Cons.IH)
  also have "\<dots> = ai\<lparr>safes := safes ai \<union> set (x # xs),
        knowledge := map (\<lambda>s. s\<lparr>cells := cells s - set (x # xs)\<rparr>) (knowledge ai)\<rparr>"
    by (simp add: mark_safe_def Sentence_mark_safe_eq comp_def 1)
  finally show ?case .
qed

lemma card_Int_insert:
  assumes "finite B" "x \<notin> B"
  shows "int (card (A \<inter> insert x B)) = int (card (A \<inter> {x})) + int (card ((A - {x}) \<inter> B))"
proof -
  have "A \<inter> insert x B = (A \<inter> {x}) \<union> ((A - {x}) \<inter> B)" using assms by auto
  moreover have "card ((A \<inter> {x}) \<union> ((A - {x}) \<inter> B)) = card (A \<inter> {x}) + card ((A - {x}) \<inter> B)"
    using assms by (intro card_Un_disjoint) auto
  ultimately show ?thesis by simp
qed

lemma mark_mine_step:
  assumes "finite B" "x \<notin> B"
  shows "(\<lambda>s. s\<lparr>cells := cells s - B, count := count s - int (card (cells s \<inter> B))\<rparr>)
           (Sentence_mark_mine x s) =
         s\<lparr>cells := cells s - insert x B,
           count := count s - int (card (cells s \<inter> insert x B))\<rparr>"
proof -
  have 1: "cells s - {x} - B = cells s - insert x B" by auto
  have 2: "count s - int (card (cells s \<inter> {x})) - int (card ((cells s - {x}) \<inter> B)) =
         count s - int (card (cells s \<inter> insert x B))"
    using card_Int_insert[OF assms, of "cells s"] by linarith
  show ?thesis unfolding Sentence_mark_mine_eq using 1 2 by simp
qed

lemma fold_mark_mine:
  "distinct xs \<Longrightarrow>
   fold mark_mine xs ai =
     ai\<lparr>mines := mines ai \<union> set xs,
        knowledge := map (\<lambda>s. s\<lparr>cells := cells s - set xs,
                                count := count s - int (card (cells s \<inter> set xs))\<rparr>) (knowledge ai)\<rparr>"
proof (induction xs arbitrary: ai)
  case Nil
  have "map (\<lambda>s. s\<lparr>cells := cells s - set [],
                       count := count s - int (card (cells s \<inter> set []))\<rparr>) (knowledge ai) =
        knowledge ai"
    by (rule map_idI) simp
  then show ?case by simp
next
  case (Cons x xs)
  let ?f = "\<lambda>B s. s\<lparr>cells := cells s - B, count := count s - int (card (cells s \<inter> B))\<rparr>"
  have step: "map (?f (set xs)) (map (Sentence_mark_mine x) K) = map (?f (set (x # xs))) K" for K
    using Cons.prems by (simp add: mark_mine_step del: Diff_insert0)
  have "fold mark_mine (x # xs) ai = fold mark_mine xs (mark_mine x ai)" by simp
  also have "\<dots> = (mark_mine x ai)\<lparr>mines := mines (mark_mine x ai) \<union> set xs,
        knowledge := map (?f (set xs)) (knowledge (mark_mine x ai))\<rparr>"
    using Cons.prems by (intro Cons.IH) simp
  also have "\<dots> = ai\<lparr>mines := mines ai \<union> set (x # xs),
        knowledge := map (?f (set xs)) (map (Sentence_mark_mine x) (knowledge ai))\<rparr>"
    by (simp add: mark_mine_def)
  also have "\<dots> = ai\<lparr>mines := mines ai \<union> set (x # xs),
        knowledge := map (?f (set (x # xs))) (knowledge ai)\<rparr>"
    by (simp only: step)
  finally show ?case .
qed

lemma mark_safe_all_order:
  "finite cs \<Longrightarrow> set xs = cs \<Longrightarrow> fold mark_safe xs ai = mark_safe_all cs ai"
  by (simp add: mark_safe_all_def fold_mark_safe)

lemma mark_mine_all_order:
  "finite cs \<Longrightarrow> distinct xs \<Longrightarrow> set xs = cs \<Longrightarrow> fold mark_mine xs ai = mark_mine_all cs ai"
  by (simp add: mark_mine_all_def fold_mark_mine)

subsection \<open>Step 5 on a list without equal sentences\<close>

text \<open>
  While no two sentences of the list are equal nothing is removed, no iterator passes over
  a sentence, and every pair of the list the loops began with is compared.
\<close>

lemma infer_inner_distinct:
  assumes "infer_inner s1 p j K = Some K'"
  shows "distinct K \<Longrightarrow> p = Some i \<Longrightarrow> i < length K \<Longrightarrow> K ! i = s1 \<Longrightarrow>
    distinct K' \<and> (\<exists>ys. K' = K @ ys) \<and>
    (\<forall>m. j \<le> m \<and> m < length K \<and> m \<noteq> i \<and> cells s1 \<subseteq> cells (K ! m) \<longrightarrow>
       infer_sentence s1 (K ! m) \<in> set K')"
  using assms
proof (induction arbitrary: i rule: infer_inner.raw_induct[rotated 1, consumes 1, case_names step])
  case (step inner s1 p j K K')
  note IH = step.IH and d = step.prems(1) and p = step.prems(2) and i = step.prems(3,4)
    and eq = step.hyps
  show ?case
  proof (cases "j < length K")
    case False
    then show ?thesis using eq d by auto
  next
    case j: True
    have later: "\<forall>m. j \<le> m \<and> m < length K \<and> m \<noteq> i \<and> cells s1 \<subseteq> cells (K ! m) \<longrightarrow>
        infer_sentence s1 (K ! m) \<in> set K'"
      if "\<forall>m. Suc j \<le> m \<and> m < length K \<and> m \<noteq> i \<and> cells s1 \<subseteq> cells (K ! m) \<longrightarrow>
        infer_sentence s1 (K ! m) \<in> set K'"
        and "j \<noteq> i \<and> cells s1 \<subseteq> cells (K ! j) \<longrightarrow> infer_sentence s1 (K ! j) \<in> set K'"
      using that by (metis Suc_leI le_neq_implies_less)
    show ?thesis
    proof (cases "j = i")
      case True
      then have "inner s1 p (Suc j) K = Some K'" using eq j p by simp
      from IH[OF this d p i] show ?thesis using True later by blast
    next
      case False
      then have neq: "K ! j \<noteq> s1" using d i j by (auto simp: nth_eq_iff_index_eq)
      show ?thesis
      proof (cases "cells s1 \<subseteq> cells (K ! j) \<and> infer_sentence s1 (K ! j) \<notin> set K")
        case True
        let ?u = "infer_sentence s1 (K ! j)"
        have call: "inner s1 p (Suc j) (K @ [?u]) = Some K'"
          using eq j p False neq True by (auto simp: sentence_eq_def)
        have d2: "distinct (K @ [?u])" using d True by simp
        have i2: "i < length (K @ [?u])" "(K @ [?u]) ! i = s1" using i by (simp_all add: nth_append)
        from IH[OF call d2 p i2]
        have r: "distinct K'" "\<exists>ys. K' = (K @ [?u]) @ ys"
          "\<forall>m. Suc j \<le> m \<and> m < length (K @ [?u]) \<and> m \<noteq> i \<and>
             cells s1 \<subseteq> cells ((K @ [?u]) ! m) \<longrightarrow> infer_sentence s1 ((K @ [?u]) ! m) \<in> set K'"
          by blast+
        have "\<forall>m. Suc j \<le> m \<and> m < length K \<and> m \<noteq> i \<and> cells s1 \<subseteq> cells (K ! m) \<longrightarrow>
          infer_sentence s1 (K ! m) \<in> set K'"
        proof (intro allI impI)
          fix m assume m: "Suc j \<le> m \<and> m < length K \<and> m \<noteq> i \<and> cells s1 \<subseteq> cells (K ! m)"
          then have "(K @ [?u]) ! m = K ! m" "m < length (K @ [?u])" by (simp_all add: nth_append)
          then show "infer_sentence s1 (K ! m) \<in> set K'" using r(3) m by metis
        qed
        moreover have "?u \<in> set K'" using r(2) by auto
        moreover have "\<exists>ys. K' = K @ ys" using r(2) by auto
        ultimately show ?thesis using r(1) later by blast
      next
        case no: False
        then have call: "inner s1 p (Suc j) K = Some K'"
          using eq j p \<open>j \<noteq> i\<close> neq by (auto simp: sentence_eq_def split: if_splits)
        from IH[OF call d p i]
        have r: "distinct K'" "\<exists>ys. K' = K @ ys"
          "\<forall>m. Suc j \<le> m \<and> m < length K \<and> m \<noteq> i \<and> cells s1 \<subseteq> cells (K ! m) \<longrightarrow>
             infer_sentence s1 (K ! m) \<in> set K'"
          by blast+
        have "cells s1 \<subseteq> cells (K ! j) \<longrightarrow> infer_sentence s1 (K ! j) \<in> set K'"
          using no r(2) by auto
        then show ?thesis using r later by blast
      qed
    qed
  qed
qed

lemma infer_outer_distinct:
  assumes "infer_outer i K = Some K'"
  shows "distinct K \<Longrightarrow>
    distinct K' \<and> (\<exists>ys. K' = K @ ys) \<and>
    (\<forall>n m. i \<le> n \<and> n < length K \<and> m < length K \<and> m \<noteq> n \<and>
       cells (K ! n) \<subseteq> cells (K ! m) \<longrightarrow> infer_sentence (K ! n) (K ! m) \<in> set K')"
  using assms
proof (induction rule: infer_outer.raw_induct[rotated 1, consumes 1, case_names step])
  case (step outer i K K')
  note IH = step.IH and d = step.prems and eq = step.hyps
  show ?case
  proof (cases "i < length K")
    case False
    then show ?thesis using eq d by auto
  next
    case i: True
    then obtain K1 where K1: "infer_inner (K ! i) (Some i) 0 K = Some K1"
      and rest: "outer (Suc i) K1 = Some K'"
      using eq by (auto simp: bind_eq_Some_conv)
    from infer_inner_distinct[OF K1 d refl i refl]
    have r1: "distinct K1" "\<exists>ys. K1 = K @ ys"
      "\<forall>m. m < length K \<and> m \<noteq> i \<and> cells (K ! i) \<subseteq> cells (K ! m) \<longrightarrow>
         infer_sentence (K ! i) (K ! m) \<in> set K1"
      by simp_all
    from IH[OF rest r1(1)]
    have r2: "distinct K'" "\<exists>ys. K' = K1 @ ys"
      "\<forall>n m. Suc i \<le> n \<and> n < length K1 \<and> m < length K1 \<and> m \<noteq> n \<and>
         cells (K1 ! n) \<subseteq> cells (K1 ! m) \<longrightarrow> infer_sentence (K1 ! n) (K1 ! m) \<in> set K'"
      by blast+
    obtain ys where ys: "K1 = K @ ys" using r1(2) by blast
    have "infer_sentence (K ! n) (K ! m) \<in> set K'"
      if nm: "i \<le> n" "n < length K" "m < length K" "m \<noteq> n" "cells (K ! n) \<subseteq> cells (K ! m)"
      for n m
    proof (cases "n = i")
      case True
      then have "infer_sentence (K ! n) (K ! m) \<in> set K1" using r1(3) nm by simp
      then show ?thesis using r2(2) by auto
    next
      case False
      then have "Suc i \<le> n" using nm(1) by simp
      moreover have "K1 ! n = K ! n" "K1 ! m = K ! m" "n < length K1" "m < length K1"
        using nm ys by (simp_all add: nth_append)
      ultimately show ?thesis using r2(3) nm(4,5) by metis
    qed
    moreover have "\<exists>ys. K' = K @ ys" using r2(2) ys by auto
    ultimately show ?thesis using r2(1) by blast
  qed
qed

lemma infer_outer_pairs:
  assumes "distinct K" "infer_outer 0 K = Some K'" "a \<in> set K" "b \<in> set K" "a \<noteq> b"
    "cells a \<subseteq> cells b"
  shows "infer_sentence a b \<in> set K'"
proof -
  obtain n m where nm: "n < length K" "K ! n = a" "m < length K" "K ! m = b"
    using assms(3,4) by (auto simp: in_set_conv_nth)
  then have "m \<noteq> n" using assms(5) by auto
  then show ?thesis using infer_outer_distinct[OF assms(2,1)] nm assms(6) by (metis le0)
qed

subsection \<open>The four games, step by step\<close>

lemma step_a1: "add_knowledge (0, 2) 1 (init_ai 3 3) = Some ai_a1"
  by code_simp

lemma step_a2: "add_knowledge (0, 1) 2 ai_a1 = Some ai_a2"
  by code_simp

lemma step_a3: "add_knowledge (1, 1) 2 ai_a2 = Some ai_a3"
  by code_simp

lemma valid_a:
  "valid_observation board_a (0, 2) 1" "valid_observation board_a (0, 1) 2"
  "valid_observation board_a (1, 1) 2"
  by code_simp+

lemma wf_a: "wf_board board_a"
  by (simp add: wf_board_def board_a_def)

lemma reach_a2: "reachable board_a ai_a2"
proof -
  have "reachable board_a (init_ai 3 3)" using reachable.start[OF wf_a] by (simp add: board_a_def)
  then have "reachable board_a ai_a1" using valid_a(1) step_a1 by (rule reachable.observe)
  then show ?thesis using valid_a(2) step_a2 by (rule reachable.observe)
qed

lemma reach_a3: "reachable board_a ai_a3"
  using reach_a2 valid_a(3) step_a3 by (rule reachable.observe)

lemma step_b1: "add_knowledge (0, 0) 0 (init_ai 3 3) = Some ai_b1"
  by code_simp

lemma step_b2: "add_knowledge (0, 1) 1 ai_b1 = Some ai_b2"
  by code_simp


lemma valid_b: "valid_observation board_b (0, 0) 0" "valid_observation board_b (0, 1) 1"
  by code_simp+




lemma step_c1: "add_knowledge (0, 0) 1 (init_ai 2 3) = Some ai_c1"
  by code_simp

lemma step_c2: "add_knowledge (0, 1) 1 ai_c1 = Some ai_c2"
  by code_simp

lemma valid_c: "valid_observation board_c (0, 0) 1" "valid_observation board_c (0, 1) 1"
  by code_simp+

lemma wf_c: "wf_board board_c"
  by (simp add: wf_board_def board_c_def)

lemma reach_c1: "reachable board_c ai_c1"
proof -
  have "reachable board_c (init_ai 2 3)" using reachable.start[OF wf_c] by (simp add: board_c_def)
  then show ?thesis using valid_c(1) step_c1 by (rule reachable.observe)
qed

lemma reach_c2: "reachable board_c ai_c2"
  using reach_c1 valid_c(2) step_c2 by (rule reachable.observe)

lemma step_d1: "add_knowledge (0, 2) 1 (init_ai 1 4) = Some ai_d1"
  by code_simp

lemma step_d2: "add_knowledge (0, 0) 1 ai_d1 = Some ai_d2"
  by code_simp

lemma valid_d: "valid_observation board_d (0, 2) 1" "valid_observation board_d (0, 0) 1"
  by code_simp+

lemma wf_d: "wf_board board_d"
  by (simp add: wf_board_def board_d_def)

lemma reach_d1: "reachable board_d ai_d1"
proof -
  have "reachable board_d (init_ai 1 4)" using reachable.start[OF wf_d] by (simp add: board_d_def)
  then show ?thesis using valid_d(1) step_d1 by (rule reachable.observe)
qed

section \<open>Properties\<close>

subsection \<open>The sentence of a new observation\<close>

text \<open>
  C1.  The sentence that \<^verbatim>\<open>add_knowledge\<close> builds leaves out every neighbour already known
  to be safe.  The code tests \<^verbatim>\<open>self.moves_made\<close> where its comment says "not marked as
  mine or safe": in game B the cell \<open>(1,0)\<close> is held safe, was not played, and is a member
  of the sentence that the observation of \<open>(0,1)\<close> adds and the call retains.
\<close>

theorem known_safe_neighbour_enters_sentence:
  "(1, 0) \<in> safes ai_b1 \<and> (1, 0) \<notin> moves_made ai_b1 \<and>
   new_sentence (mark_safe (0, 1) (ai_b1\<lparr>moves_made := insert (0, 1) (moves_made ai_b1)\<rparr>))
     (0, 1) 1 = \<lparr>cells = {(0, 2), (1, 0), (1, 1), (1, 2)}, count = 1\<rparr> \<and>
   add_knowledge (0, 1) 1 ai_b1 = Some ai_b2 \<and>
   knowledge ai_b2 ! 1 = \<lparr>cells = {(0, 2), (1, 0), (1, 1), (1, 2)}, count = 1\<rparr> \<and>
   (1, 0) \<in> safes ai_b2"
proof -
  have "new_sentence (mark_safe (0, 1) (ai_b1\<lparr>moves_made := insert (0, 1) (moves_made ai_b1)\<rparr>))
     (0, 1) 1 = \<lparr>cells = {(0, 2), (1, 0), (1, 1), (1, 2)}, count = 1\<rparr>"
    by code_simp
  moreover have "(1, 0) \<in> safes ai_b1 \<and> (1, 0) \<notin> moves_made ai_b1"
    by (simp add: ai_b1_def)
  moreover have "knowledge ai_b2 ! 1 = \<lparr>cells = {(0, 2), (1, 0), (1, 1), (1, 2)}, count = 1\<rparr> \<and>
      (1, 0) \<in> safes ai_b2"
    by (simp add: ai_b2_def)
  ultimately show ?thesis using step_b2 by blast
qed

subsection \<open>Fixed points\<close>

text \<open>
  C2.  After \<^verbatim>\<open>add_knowledge\<close> returns, running the pass of step 4 and the pass of step 5
  again changes nothing.  The docstring of \<^verbatim>\<open>add_knowledge\<close> says the function should "mark
  any additional cells as safe or as mines if it can be concluded based on the AI's
  knowledge base"; the code runs step 4 once, before step 5, and visits every sentence
  once.  In game C the call for \<open>(0,1)\<close> returns with the sentence \<open>{(0,2), (1,2)} = 0\<close>,
  which step 5 derived after step 4 had run, and \<open>(0,2)\<close> is not in \<^verbatim>\<open>safes\<close>.  In game D
  step 4 alone leaves \<open>{(0,3)} = 0\<close>: the second sentence marks the mine \<open>(0,1)\<close> after the
  loop has passed the first, and the call for \<open>(0,0)\<close> returns with \<open>(0,3)\<close> not in
  \<^verbatim>\<open>safes\<close>.  In both returned states step 4, run again, marks the cell safe.
\<close>

theorem observe_not_fixed_point:
  "reachable board_c ai_c1 \<and> valid_observation board_c (0, 1) 1 \<and>
   add_knowledge (0, 1) 1 ai_c1 = Some ai_c2 \<and>
   knowledge ai_c2 ! 2 = \<lparr>cells = {(0, 2), (1, 2)}, count = 0\<rparr> \<and>
   (0, 2) \<notin> safes ai_c2 \<and> (0, 2) \<in> safes (conclude_from 0 ai_c2) \<and>
   reachable board_d ai_d1 \<and> valid_observation board_d (0, 0) 1 \<and>
   conclude_from 0 (record_move (0, 0) 1 ai_d1) = ai_d2 \<and>
   add_knowledge (0, 0) 1 ai_d1 = Some ai_d2 \<and>
   knowledge ai_d2 ! 0 = \<lparr>cells = {(0, 3)}, count = 0\<rparr> \<and>
   (0, 3) \<notin> safes ai_d2 \<and> (0, 3) \<in> safes (conclude_from 0 ai_d2)"
proof -
  have c: "knowledge ai_c2 ! 2 = \<lparr>cells = {(0, 2), (1, 2)}, count = 0\<rparr> \<and> (0, 2) \<notin> safes ai_c2"
    by (simp add: ai_c2_def)
  have c': "(0, 2) \<in> safes (conclude_from 0 ai_c2)" by code_simp
  have d: "knowledge ai_d2 ! 0 = \<lparr>cells = {(0, 3)}, count = 0\<rparr> \<and> (0, 3) \<notin> safes ai_d2"
    by (simp add: ai_d2_def)
  have d': "(0, 3) \<in> safes (conclude_from 0 ai_d2)" by code_simp
  have d4: "conclude_from 0 (record_move (0, 0) 1 ai_d1) = ai_d2" by code_simp
  show ?thesis
    using c c' d d' d4 reach_c1 valid_c(2) step_c2 reach_d1 valid_d(2) step_d2 by simp
qed

subsection \<open>Vacuous sentences\<close>

text \<open>
  C3, as stated, fails.  In game B the first observation, \<open>(0,0)\<close> with count 0, leaves the
  sentence with no cells and count 0 in the knowledge base.
\<close>

theorem vacuous_sentence_retained:
  "valid_observation board_b (0, 0) 0 \<and> add_knowledge (0, 0) 0 (init_ai 3 3) = Some ai_b1 \<and>
   knowledge ai_b1 = [\<lparr>cells = {}, count = 0\<rparr>]"
  using valid_b(1) step_b1 by (simp add: ai_b1_def)

text \<open>
  C3, amended.  No sentence is purged: \<^verbatim>\<open>mark_safe\<close> and \<^verbatim>\<open>mark_mine\<close> of the knowledge
  base keep the number of sentences, and steps 1 to 4 of \<^verbatim>\<open>add_knowledge\<close> end with one
  sentence more than the call began with, whatever the cells of the new sentence.
\<close>

theorem sentences_never_purged:
  "length (knowledge (mark_safe c ai)) = length (knowledge ai) \<and>
   length (knowledge (mark_mine c ai)) = length (knowledge ai) \<and>
   length (knowledge (conclude_from 0 (record_move c n ai))) = Suc (length (knowledge ai))"
  by (simp add: mark_safe_def mark_mine_def record_move_def Let_def)

theorem sentences_never_purged_witness:
  "length (knowledge (mark_safe (0, 1) ai_b1)) = 1 \<and>
   length (knowledge (mark_mine (0, 1) ai_b1)) = 1 \<and>
   length (knowledge (conclude_from 0 (record_move (0, 1) 1 ai_b1))) = 2"
  using sentences_never_purged[of "(0, 1)" ai_b1 1] by (simp add: ai_b1_def)

subsection \<open>Invariants of the reachable states\<close>

text \<open>
  C4.  In every state reachable by valid observations, no cell is both in \<^verbatim>\<open>self.safes\<close>
  and in \<^verbatim>\<open>self.mines\<close>.
\<close>

theorem safes_mines_disjoint: "reachable g ai \<Longrightarrow> safes ai \<inter> mines ai = {}"
  using reachable_sound[of g ai] by (auto simp: sound_def)

theorem safes_mines_disjoint_witness:
  "reachable board_a ai_a3 \<and> safes ai_a3 \<inter> mines ai_a3 = {} \<and> mines ai_a3 = {(1, 2)}"
  using safes_mines_disjoint[OF reach_a3] reach_a3 by (simp add: ai_a3_def)

text \<open>
  C5.  Every sentence of a state reachable by valid observations has
  \<open>0 \<le> count \<le> |cells|\<close>, and so has every sentence after the knowledge base marks a cell
  the way its propagation does: safe, for a cell of a sentence whose \<^verbatim>\<open>known_safes()\<close>
  holds it or for the cell of a valid observation; a mine, for a cell of a sentence whose
  \<^verbatim>\<open>known_mines()\<close> holds it.
\<close>

theorem counts_in_range:
  assumes "reachable g ai"
  shows "(\<forall>s \<in> set (knowledge ai). count_in_range s) \<and>
    (\<forall>t \<in> set (knowledge ai). \<forall>cs d. known_safes t = Some cs \<and> d \<in> cs \<longrightarrow>
       (\<forall>s \<in> set (knowledge (mark_safe d ai)). count_in_range s)) \<and>
    (\<forall>t \<in> set (knowledge ai). \<forall>cs d. known_mines t = Some cs \<and> d \<in> cs \<longrightarrow>
       (\<forall>s \<in> set (knowledge (mark_mine d ai)). count_in_range s)) \<and>
    (\<forall>c n. valid_observation g c n \<longrightarrow>
       (\<forall>s \<in> set (knowledge (mark_safe c ai)). count_in_range s))"
proof -
  let ?M = "board_mines g" and ?G = "grid (height ai) (width ai)"
  have snd: "sound ?M ai" using reachable_sound[OF assms] by simp
  have range: "\<And>ai'. sound ?M ai' \<Longrightarrow> \<forall>s \<in> set (knowledge ai'). count_in_range s"
    by (auto simp: sound_def intro: sound_count_in_range)
  have 1: "\<forall>s \<in> set (knowledge ai). count_in_range s" using snd by (rule range)
  have 2: "\<forall>s \<in> set (knowledge (mark_safe d ai)). count_in_range s"
    if "t \<in> set (knowledge ai)" "known_safes t = Some cs" "d \<in> cs" for t cs d
  proof -
    have "sound_sentence ?G ?M t" using snd that(1) by (simp add: sound_def)
    then have "cs \<inter> ?M = {}" using that(2) by (intro sound_known_safes(1)[of ?G ?M t]) simp_all
    then have "d \<notin> ?M" using that(3) by auto
    then show ?thesis using snd by (intro range sound_mark_safe)
  qed
  have 3: "\<forall>s \<in> set (knowledge (mark_mine d ai)). count_in_range s"
    if "t \<in> set (knowledge ai)" "known_mines t = Some cs" "d \<in> cs" for t cs d
  proof -
    have "sound_sentence ?G ?M t" using snd that(1) by (simp add: sound_def)
    then have "cs \<subseteq> ?M" using that(2) by (intro sound_known_mines(1)[of ?G ?M t]) simp_all
    then have "d \<in> ?M" using that(3) by auto
    then show ?thesis using snd by (intro range sound_mark_mine)
  qed
  have 4: "\<forall>s \<in> set (knowledge (mark_safe c ai)). count_in_range s"
    if "valid_observation g c n" for c n
  proof -
    have "c \<notin> ?M" using that by (simp add: valid_observation_def board_mines_def)
    then show ?thesis using snd by (intro range sound_mark_safe)
  qed
  show ?thesis using 1 2 3 4 by blast
qed

theorem counts_in_range_witness:
  "reachable board_a ai_a2 \<and>
   count_in_range \<lparr>cells = {(0, 0), (1, 0), (1, 1), (1, 2)}, count = 2\<rparr> \<and>
   count_in_range \<lparr>cells = {(0, 0), (1, 0)}, count = 1\<rparr>"
proof -
  have "\<forall>s \<in> set (knowledge ai_a2). count_in_range s"
    using counts_in_range[OF reach_a2] by (rule conjunct1)
  moreover have "knowledge ai_a2 = [\<lparr>cells = {(1, 1), (1, 2)}, count = 1\<rparr>,
       \<lparr>cells = {(0, 0), (1, 0), (1, 1), (1, 2)}, count = 2\<rparr>,
       \<lparr>cells = {(0, 0), (1, 0)}, count = 1\<rparr>]"
    by (simp add: ai_a2_def)
  ultimately show ?thesis using reach_a2 by simp
qed

subsection \<open>Termination\<close>

text \<open>
  C6.  From every state reachable by valid observations, \<^verbatim>\<open>add_knowledge\<close> returns for
  every valid observation.  Steps 1 to 4 are total functions; the loops of step 5 end
  because every sentence they hold is sound for the board, of which there are finitely
  many, a removal leaves an equal sentence in the list, and an addition is new to it.
\<close>

theorem add_knowledge_returns:
  "reachable g ai \<Longrightarrow> valid_observation g c n \<Longrightarrow> \<exists>ai'. add_knowledge c n ai = Some ai'"
proof -
  assume r: "reachable g ai" and v: "valid_observation g c n"
  have "c \<notin> board_mines g" using v by (simp add: valid_observation_def board_mines_def)
  moreover have "n = int (card (around (height ai) (width ai) c \<inter> board_mines g))"
    using v reachable_sound[OF r] by (simp add: valid_observation_def nearby_mines_card)
  ultimately show ?thesis
    using add_knowledge_sound[of "board_mines g" ai c n] reachable_sound[OF r] by blast
qed

theorem add_knowledge_returns_witness:
  "reachable board_a ai_a2 \<and> valid_observation board_a (1, 1) 2 \<and>
   (\<exists>ai'. add_knowledge (1, 1) 2 ai_a2 = Some ai')"
  using add_knowledge_returns[OF reach_a2 valid_a(3)] reach_a2 valid_a(3) by simp

subsection \<open>Repeated observations\<close>




subsection \<open>Inference from subset pairs\<close>

text \<open>
  C8.  For sentences \<open>A\<close> and \<open>B\<close> of the knowledge base with the cells of \<open>A\<close> among those
  of \<open>B\<close>, step 5 adds the sentence of the difference.  The code removes, while both loops
  run over the list, the first sentence equal to a duplicate, and both iterators then pass
  over a sentence.  In game A the third call enters step 5 with \<open>{(0,0), (1,0)} = 1\<close>
  twice, followed by \<open>{(0,0), (1,0), (2,0), (2,1), (2,2)} = 1\<close>, and returns without the
  sentence \<open>{(2,0), (2,1), (2,2)} = 0\<close>.  On a list without equal sentences the
  difference of every pair is added (\<open>infer_outer_pairs\<close>).
\<close>

theorem subset_pair_skipped:
  "conclude_from 0 (record_move (1, 1) 2 ai_a2) = ai_a3\<lparr>knowledge :=
     [\<lparr>cells = {}, count = 0\<rparr>, \<lparr>cells = {(0, 0), (1, 0)}, count = 1\<rparr>,
      \<lparr>cells = {(0, 0), (1, 0)}, count = 1\<rparr>,
      \<lparr>cells = {(0, 0), (1, 0), (2, 0), (2, 1), (2, 2)}, count = 1\<rparr>]\<rparr> \<and>
   infer_outer 0
     [\<lparr>cells = {}, count = 0\<rparr>, \<lparr>cells = {(0, 0), (1, 0)}, count = 1\<rparr>,
      \<lparr>cells = {(0, 0), (1, 0)}, count = 1\<rparr>,
      \<lparr>cells = {(0, 0), (1, 0), (2, 0), (2, 1), (2, 2)}, count = 1\<rparr>] =
     Some [\<lparr>cells = {}, count = 0\<rparr>, \<lparr>cells = {(0, 0), (1, 0)}, count = 1\<rparr>,
      \<lparr>cells = {(0, 0), (1, 0), (2, 0), (2, 1), (2, 2)}, count = 1\<rparr>] \<and>
   add_knowledge (1, 1) 2 ai_a2 = Some ai_a3 \<and>
   infer_sentence \<lparr>cells = {(0, 0), (1, 0)}, count = 1\<rparr>
     \<lparr>cells = {(0, 0), (1, 0), (2, 0), (2, 1), (2, 2)}, count = 1\<rparr> =
     \<lparr>cells = {(2, 0), (2, 1), (2, 2)}, count = 0\<rparr> \<and>
   \<lparr>cells = {(2, 0), (2, 1), (2, 2)}, count = 0\<rparr> \<notin> set (knowledge ai_a3)"
proof -
  have "conclude_from 0 (record_move (1, 1) 2 ai_a2) = ai_a3\<lparr>knowledge :=
     [\<lparr>cells = {}, count = 0\<rparr>, \<lparr>cells = {(0, 0), (1, 0)}, count = 1\<rparr>,
      \<lparr>cells = {(0, 0), (1, 0)}, count = 1\<rparr>,
      \<lparr>cells = {(0, 0), (1, 0), (2, 0), (2, 1), (2, 2)}, count = 1\<rparr>]\<rparr>"
    by code_simp
  moreover have "infer_outer 0
     [\<lparr>cells = {}, count = 0\<rparr>, \<lparr>cells = {(0, 0), (1, 0)}, count = 1\<rparr>,
      \<lparr>cells = {(0, 0), (1, 0)}, count = 1\<rparr>,
      \<lparr>cells = {(0, 0), (1, 0), (2, 0), (2, 1), (2, 2)}, count = 1\<rparr>] =
     Some [\<lparr>cells = {}, count = 0\<rparr>, \<lparr>cells = {(0, 0), (1, 0)}, count = 1\<rparr>,
      \<lparr>cells = {(0, 0), (1, 0), (2, 0), (2, 1), (2, 2)}, count = 1\<rparr>]"
    by code_simp
  moreover have "infer_sentence \<lparr>cells = {(0, 0), (1, 0)}, count = 1\<rparr>
     \<lparr>cells = {(0, 0), (1, 0), (2, 0), (2, 1), (2, 2)}, count = 1\<rparr> =
     \<lparr>cells = {(2, 0), (2, 1), (2, 2)}, count = 0\<rparr>"
    by code_simp
  moreover have "\<lparr>cells = {(2, 0), (2, 1), (2, 2)}, count = 0\<rparr> \<notin> set (knowledge ai_a3)"
    by (simp add: ai_a3_def)
  ultimately show ?thesis using step_a3 by simp
qed

subsection \<open>The three sets grow\<close>

text \<open>
  C9.  \<^verbatim>\<open>mark_safe\<close> and \<^verbatim>\<open>mark_mine\<close> of the knowledge base and every call of
  \<^verbatim>\<open>add_knowledge\<close> that returns leave \<^verbatim>\<open>moves_made\<close>, \<^verbatim>\<open>safes\<close> and \<^verbatim>\<open>mines\<close> supersets of
  what they were.
\<close>

theorem sets_grow:
  "moves_made ai \<subseteq> moves_made (mark_safe c ai) \<and> safes ai \<subseteq> safes (mark_safe c ai) \<and>
   mines ai \<subseteq> mines (mark_safe c ai) \<and>
   moves_made ai \<subseteq> moves_made (mark_mine c ai) \<and> safes ai \<subseteq> safes (mark_mine c ai) \<and>
   mines ai \<subseteq> mines (mark_mine c ai) \<and>
   (add_knowledge c n ai = Some ai' \<longrightarrow>
      moves_made ai \<subseteq> moves_made ai' \<and> safes ai \<subseteq> safes ai' \<and> mines ai \<subseteq> mines ai')"
proof -
  have "moves_made ai \<subseteq> moves_made ai' \<and> safes ai \<subseteq> safes ai' \<and> mines ai \<subseteq> mines ai'"
    if "add_knowledge c n ai = Some ai'"
    using add_knowledge_sets[OF that] by auto
  then show ?thesis by (auto simp: mark_safe_def mark_mine_def)
qed

theorem sets_grow_witness:
  "add_knowledge (1, 1) 2 ai_a2 = Some ai_a3 \<and>
   moves_made ai_a2 \<subseteq> moves_made ai_a3 \<and> safes ai_a2 \<subseteq> safes ai_a3 \<and>
   mines ai_a2 \<subseteq> mines ai_a3 \<and> mines ai_a2 \<noteq> mines ai_a3"
proof -
  have "mines ai_a2 \<noteq> mines ai_a3" by (simp add: ai_a2_def ai_a3_def)
  then show ?thesis using sets_grow[of ai_a2 "(1, 1)" 2 ai_a3] step_a3 by simp
qed

subsection \<open>The empty sentence\<close>

text \<open>
  C10.  For the sentence with an empty cell set and count 0, \<^verbatim>\<open>known_mines()\<close> and
  \<^verbatim>\<open>known_safes()\<close> both return the empty set, a present result, and not \<^verbatim>\<open>None\<close>.
\<close>

theorem empty_sentence_resolves:
  "known_mines \<lparr>cells = {}, count = 0\<rparr> = Some {} \<and>
   known_safes \<lparr>cells = {}, count = 0\<rparr> = Some {}"
  by (simp add: known_mines_def known_safes_def)

end
